theory Spec2Isabelle
  imports Complex_Main "HOL-Library.Multiset"
begin

section \<open>Data model\<close>

text \<open>
  Times are JavaScript numbers; they are modelled as reals (the comparisons and the
  additions of the source are read as exact). A transcript segment is the object
  \<^verbatim>\<open>{start, end, text, speaker}\<close> of the transcription backend; a missing
  \<^verbatim>\<open>speaker\<close> property is \<open>None\<close>.
\<close>

record segment =
  start :: real
  endt :: real
  seg_text :: string
  speaker :: "string option"

section \<open>Segment merger (routes/transcribe.js, mergeChunkSegments)\<close>

definition mergeChunkSegments ::
  "segment list \<Rightarrow> segment list \<Rightarrow> real \<Rightarrow> real \<Rightarrow> segment list" where
  "mergeChunkSegments existingSegments newSegments chunkStartTime overlapSeconds =
     (if length existingSegments = 0 then newSegments
      else
        let overlapStart = chunkStartTime;
            filteredExisting = filter (\<lambda>seg. endt seg \<le> overlapStart + 1) existingSegments;
            filteredNew = filter (\<lambda>seg. start seg \<ge> overlapStart - 1) newSegments
        in filteredExisting @ filteredNew)"

text \<open>The two segments of the seam scenario: both span 239 s to 241 s.\<close>

definition seam_accumulated :: segment where
  "seam_accumulated = \<lparr>start = 239, endt = 241, seg_text = ''seam, old chunk'', speaker = Some ''A''\<rparr>"

definition seam_new :: segment where
  "seam_new = \<lparr>start = 239, endt = 241, seg_text = ''seam, new chunk'', speaker = Some ''A''\<rparr>"

section \<open>Working files\<close>

text \<open>
  The route works on the extracted audio file \<^verbatim>\<open><session>.mp3\<close> and on the chunk files
  \<^verbatim>\<open><session>_chunk_<i>.mp3\<close> in the uploads directory. The file system is the set of
  the paths that exist. \<^verbatim>\<open>fs.unlinkSync\<close> can throw; \<open>unlink_ok\<close> says for which paths it
  succeeds. Console output is not modelled.
\<close>

datatype path = AudioFile | ChunkFile nat

datatype error =
  ExtractError | ProbeError | StatError | ConfigError | CutError nat | TranscribeError

text \<open>lib/ffmpeg.js, safeDelete: an unlink that throws is caught and the file stays.\<close>

definition safeDelete :: "(path \<Rightarrow> bool) \<Rightarrow> path \<Rightarrow> path set \<Rightarrow> path set" where
  "safeDelete unlink_ok filePath files =
     (if filePath \<in> files \<and> unlink_ok filePath then files - {filePath} else files)"

section \<open>Splitter (lib/ffmpeg.js, splitAudioIntoChunks)\<close>

record chunk =
  path :: path
  startTime :: real
  endTime :: real
  isOriginal :: bool

text \<open>
  One run of ffmpeg on a chunk either ends, leaving the chunk file, or reports an error,
  possibly leaving a partial output file (\<open>CutFailed True\<close>).
\<close>

datatype cut_outcome = CutDone | CutFailed bool

text \<open>
  The \<^verbatim>\<open>while (startTime < duration)\<close> loop. Its state is \<open>startT\<close> (the variable
  \<^verbatim>\<open>startTime\<close>), \<open>chunkIndex\<close>, the \<open>chunks\<close> pushed so far and the files on disk. The loop need not end (it does not
  when \<open>overlapSeconds \<ge> chunkDurationSeconds\<close>), so it is a partial function: \<open>None\<close>
  is a run that never returns.
\<close>

partial_function (option) split_loop ::
  "(nat \<Rightarrow> cut_outcome) \<Rightarrow> (path \<Rightarrow> bool) \<Rightarrow> real \<Rightarrow> real \<Rightarrow> real
   \<Rightarrow> real \<Rightarrow> nat \<Rightarrow> chunk list \<Rightarrow> path set \<Rightarrow> ((error + chunk list) \<times> path set) option" where
  "split_loop ffmpeg_cut unlink_ok duration chunkDurationSeconds overlapSeconds
       startT chunkIndex chunks files =
     (if startT < duration then
        let chunkPath = ChunkFile chunkIndex;
            endT = min (startT + chunkDurationSeconds) duration
        in (case ffmpeg_cut chunkIndex of
              CutFailed leftover \<Rightarrow>
                Some (Inl (CutError chunkIndex),
                      safeDelete unlink_ok chunkPath
                        (if leftover then insert chunkPath files else files))
            | CutDone \<Rightarrow>
                let chunks' = chunks @ [\<lparr>path = chunkPath, startTime = startT,
                                         endTime = endT, isOriginal = False\<rparr>];
                    files' = insert chunkPath files;
                    startT' = endT - overlapSeconds
                in if duration - startT' < overlapSeconds * 2 then Some (Inr chunks', files')
                   else split_loop ffmpeg_cut unlink_ok duration chunkDurationSeconds
                          overlapSeconds startT' (chunkIndex + 1) chunks' files')
      else Some (Inr chunks, files))"

declare split_loop.simps [code]

text \<open>
  \<open>probe\<close> is the result of \<^verbatim>\<open>getAudioDuration\<close> (ffprobe), \<open>None\<close> when it rejects.
\<close>

definition splitAudioIntoChunks ::
  "real option \<Rightarrow> (nat \<Rightarrow> cut_outcome) \<Rightarrow> (path \<Rightarrow> bool) \<Rightarrow> real \<Rightarrow> real \<Rightarrow> path set
   \<Rightarrow> ((error + chunk list) \<times> path set) option" where
  "splitAudioIntoChunks probe ffmpeg_cut unlink_ok chunkDurationSeconds overlapSeconds files =
     (case probe of
        None \<Rightarrow> Some (Inl ProbeError, files)
      | Some duration \<Rightarrow>
          if duration \<le> chunkDurationSeconds then
            Some (Inr [\<lparr>path = AudioFile, startTime = 0, endTime = duration, isOriginal = True\<rparr>],
                  files)
          else split_loop ffmpeg_cut unlink_ok duration chunkDurationSeconds overlapSeconds 0 0 [] files)"

section \<open>Speaker normalizer (routes/transcribe.js, processTranscription)\<close>

text \<open>
  The transcription configuration; only \<^verbatim>\<open>unknown_speaker_labels\<close> is read by the
  normalizer (\<open>None\<close>: the property is absent).
\<close>

record config =
  unknown_speaker_labels :: "string list option"

record processed_segment =
  seg_id :: nat
  p_start :: real
  p_end :: real
  p_text :: string
  p_speaker :: string

text \<open>\<^verbatim>\<open>config.unknown_speaker_labels || [...]\<close>: an array, even an empty one, is truthy.\<close>

definition unknownLabels :: "config \<Rightarrow> string list" where
  "unknownLabels cfg =
     (case unknown_speaker_labels cfg of
        None \<Rightarrow> [''Interviewer'', ''Speaker A'', ''Speaker B'', ''Speaker C'']
      | Some labels \<Rightarrow> labels)"

text \<open>\<^verbatim>\<open>segment.speaker || 'Unknown'\<close>: a missing speaker and the empty string are falsy.\<close>

definition speaker_or_unknown :: "segment \<Rightarrow> string" where
  "speaker_or_unknown segment =
     (case speaker segment of
        None \<Rightarrow> ''Unknown''
      | Some s \<Rightarrow> if s = [] then ''Unknown'' else s)"

text \<open>The test \<^verbatim>\<open>/^[A-Z]$/\<close>: exactly one character, an upper-case letter.\<close>

definition is_generic :: "string \<Rightarrow> bool" where
  "is_generic s =
     (case s of [c] \<Rightarrow> c \<in> set ''ABCDEFGHIJKLMNOPQRSTUVWXYZ'' | _ \<Rightarrow> False)"

text \<open>
  \<^verbatim>\<open>unknownLabels[unknownIndex] || `Speaker ${speaker}`\<close>: an index past the end gives
  \<^verbatim>\<open>undefined\<close>, and an empty label is falsy as well.
\<close>

definition label_for :: "string list \<Rightarrow> nat \<Rightarrow> string \<Rightarrow> string" where
  "label_for labels unknownIndex spk =
     (if unknownIndex < length labels \<and> labels ! unknownIndex \<noteq> [] then labels ! unknownIndex
      else ''Speaker '' @ spk)"

text \<open>
  The body of the \<^verbatim>\<open>if (/^[A-Z]$/.test(speaker))\<close> branch on the state
  \<open>(speakerMap, unknownIndex)\<close>: the display name and the new state.
  \<^verbatim>\<open>!speakerMap[speaker]\<close> holds for an absent key and for an empty value.
\<close>

definition resolve_generic ::
  "string list \<Rightarrow> (string \<rightharpoonup> string) \<times> nat \<Rightarrow> string \<Rightarrow> string \<times> (string \<rightharpoonup> string) \<times> nat" where
  "resolve_generic labels st spk =
     (let (speakerMap, unknownIndex) = st;
          fresh = label_for labels unknownIndex spk
      in case speakerMap spk of
           None \<Rightarrow> (fresh, speakerMap(spk \<mapsto> fresh), unknownIndex + 1)
         | Some name \<Rightarrow>
             if name = [] then (fresh, speakerMap(spk \<mapsto> fresh), unknownIndex + 1)
             else (name, speakerMap, unknownIndex))"

text \<open>\<^verbatim>\<open>segments.map((segment, index) => ...)\<close> with the closure state passed along.\<close>

fun map_segments ::
  "string list \<Rightarrow> (string \<rightharpoonup> string) \<times> nat \<Rightarrow> nat \<Rightarrow> segment list \<Rightarrow> processed_segment list" where
  "map_segments labels st i [] = []"
| "map_segments labels st i (segment # rest) =
     (let spk = speaker_or_unknown segment;
          (name, st') = (if is_generic spk then resolve_generic labels st spk else (spk, st))
      in \<lparr>seg_id = i, p_start = start segment, p_end = endt segment,
           p_text = seg_text segment, p_speaker = name\<rparr>
         # map_segments labels st' (i + 1) rest)"

text \<open>\<open>None\<close> for the segments is \<^verbatim>\<open>transcription.segments || []\<close> with no segments.\<close>

definition processTranscription :: "segment list option \<Rightarrow> config \<Rightarrow> processed_segment list" where
  "processTranscription transcription_segments cfg =
     (let segments = (case transcription_segments of None \<Rightarrow> [] | Some segs \<Rightarrow> segs);
          labels = unknownLabels cfg
      in map_segments labels (Map.empty, 0) 0 segments)"

text \<open>
  The generic codes, without repetition, among the segments before the first one whose
  speaker is \<open>c\<close>: their number is the value of \<open>unknownIndex\<close> when \<open>c\<close> is first met.
\<close>

definition codes_of :: "segment list \<Rightarrow> string list" where
  "codes_of segs = filter is_generic (map speaker_or_unknown segs)"

definition codes_before :: "string \<Rightarrow> segment list \<Rightarrow> string list" where
  "codes_before c segs =
     remdups (codes_of (takeWhile (\<lambda>seg. speaker_or_unknown seg \<noteq> c) segs))"

text \<open>
  What the normalizer is shown to compute for the segment at position \<open>j\<close>, and the
  loop invariant that relates the closure state to the segments already mapped.
\<close>

definition expected_name :: "string list \<Rightarrow> segment list \<Rightarrow> nat \<Rightarrow> string" where
  "expected_name labels segs j =
     (let spk = speaker_or_unknown (segs ! j)
      in if is_generic spk then label_for labels (length (codes_before spk segs)) spk else spk)"

definition st_ok :: "string list \<Rightarrow> segment list \<Rightarrow> (string \<rightharpoonup> string) \<times> nat \<Rightarrow> bool" where
  "st_ok labels pre st \<longleftrightarrow>
     snd st = length (remdups (codes_of pre)) \<and>
     (\<forall>c. fst st c = (if c \<in> set (codes_of pre)
                       then Some (label_for labels (length (codes_before c pre)) c) else None))"

section \<open>Transcription route (routes/transcribe.js, POST /transcribe)\<close>

definition MAX_FILE_SIZE_MB :: real where "MAX_FILE_SIZE_MB = 24"
definition MAX_DURATION_SECONDS :: real where "MAX_DURATION_SECONDS = 1200"
definition MAX_CHUNK_DURATION_SECONDS :: real where "MAX_CHUNK_DURATION_SECONDS = 900"
definition CHUNK_OVERLAP_SECONDS :: real where "CHUNK_OVERLAP_SECONDS = 30"
definition DEFAULT_CHUNK_MINUTES :: real where "DEFAULT_CHUNK_MINUTES = 4"

text \<open>
  The answer of the transcription backend; \<open>None\<close> is an absent property. The result of
  one chunk is tagged with the position of the chunk, \<^verbatim>\<open>{ index: i, chunk, result }\<close>.
\<close>

record transcription =
  result_segments :: "segment list option"
  result_duration :: "real option"

record tagged =
  t_index :: nat
  t_chunk :: chunk
  t_result :: transcription

text \<open>
  \<^verbatim>\<open>Promise.all\<close> over one call of \<^verbatim>\<open>transcribeAudioFile\<close> per chunk: the array of the
  tagged results in the order of the chunks, or a rejection (\<open>None\<close>) when a call rejects.
  \<open>transcribe\<close> gives the backend's answer for a file, \<open>None\<close> when it rejects.
\<close>

fun dispatch :: "(path \<Rightarrow> transcription option) \<Rightarrow> nat \<Rightarrow> chunk list \<Rightarrow> tagged list option" where
  "dispatch transcribe i [] = Some []"
| "dispatch transcribe i (c # cs) =
     (case transcribe (path c) of
        None \<Rightarrow> None
      | Some r \<Rightarrow>
          (case dispatch transcribe (i + 1) cs of
             None \<Rightarrow> None
           | Some rest \<Rightarrow> Some (\<lparr>t_index = i, t_chunk = c, t_result = r\<rparr> # rest)))"

text \<open>
  \<^verbatim>\<open>transcriptionResults.sort((a, b) => a.index - b.index)\<close>: a stable sort on the index.
\<close>

definition sort_by_index :: "tagged list \<Rightarrow> tagged list" where
  "sort_by_index transcriptionResults = sort_key t_index transcriptionResults"

text \<open>\<^verbatim>\<open>result.segments || []\<close>, and the same segments moved by the start of the chunk.\<close>

definition segments_or_empty :: "transcription \<Rightarrow> segment list" where
  "segments_or_empty r = (case result_segments r of None \<Rightarrow> [] | Some segs \<Rightarrow> segs)"

definition adjustedSegments :: "tagged \<Rightarrow> segment list" where
  "adjustedSegments tr =
     map (\<lambda>seg. seg\<lparr>start := start seg + startTime (t_chunk tr),
                    endt := endt seg + startTime (t_chunk tr)\<rparr>)
         (segments_or_empty (t_result tr))"

text \<open>
  One round of the loop over the sorted results, on \<open>(allSegments, totalDuration)\<close>, and
  the whole loop from \<open>([], 0)\<close>. \<^verbatim>\<open>result.duration || 0\<close> is 0 for an absent duration.
\<close>

definition merge_step :: "segment list \<times> real \<Rightarrow> tagged \<Rightarrow> segment list \<times> real" where
  "merge_step acc tr =
     (mergeChunkSegments (fst acc) (adjustedSegments tr) (startTime (t_chunk tr))
        CHUNK_OVERLAP_SECONDS,
      max (snd acc)
          ((case result_duration (t_result tr) of None \<Rightarrow> 0 | Some d \<Rightarrow> d)
           + startTime (t_chunk tr)))"

definition merge_results :: "tagged list \<Rightarrow> segment list \<times> real" where
  "merge_results transcriptionResults = foldl merge_step ([], 0) transcriptionResults"

text \<open>cleanupFiles: every path that exists is unlinked; an unlink that throws is caught.\<close>

definition cleanupFiles :: "(path \<Rightarrow> bool) \<Rightarrow> path list \<Rightarrow> path set \<Rightarrow> path set" where
  "cleanupFiles unlink_ok filePaths files =
     fold (\<lambda>filePath fs. if filePath \<in> fs \<and> unlink_ok filePath then fs - {filePath} else fs)
          filePaths files"

text \<open>
  What the route asks of the outside: the run of ffmpeg that extracts the audio, ffprobe
  on the audio, the size of the audio file in bytes, the transcription configuration, the
  cuts of the splitter, the backend, and the unlinks. The known speakers of the
  configuration are only handed to the backend and are left out.
\<close>

record env =
  env_extract :: cut_outcome
  env_probe :: "real option"
  env_size :: "real option"
  env_config :: "config option"
  env_cut :: "nat \<Rightarrow> cut_outcome"
  env_transcribe :: "path \<Rightarrow> transcription option"
  env_unlink :: "path \<Rightarrow> bool"

record response =
  transcript :: "processed_segment list"
  raw_segments :: "segment list"
  raw_duration :: real
  chunked :: bool
  chunksUsed :: int

text \<open>
  \<^verbatim>\<open>Math.min((chunkMinutes || DEFAULT_CHUNK_MINUTES) * 60, MAX_CHUNK_DURATION_SECONDS)\<close>;
  the request's \<^verbatim>\<open>chunkMinutes\<close> is a number or absent, and 0 is falsy.
\<close>

definition chunkDurationSeconds :: "real option \<Rightarrow> real" where
  "chunkDurationSeconds chunkMinutes =
     (let userChunkMinutes =
            (case chunkMinutes of
               None \<Rightarrow> DEFAULT_CHUNK_MINUTES
             | Some m \<Rightarrow> if m = 0 then DEFAULT_CHUNK_MINUTES else m);
          userChunkSeconds = userChunkMinutes * 60
      in min userChunkSeconds MAX_CHUNK_DURATION_SECONDS)"

definition needsChunking :: "real \<Rightarrow> real \<Rightarrow> real \<Rightarrow> bool" where
  "needsChunking audioDuration audioFileSize chunkSeconds =
     (let audioFileSizeMB = audioFileSize / (1024 * 1024);
          exceedsHardLimits =
            (audioDuration > MAX_DURATION_SECONDS \<or> audioFileSizeMB > MAX_FILE_SIZE_MB);
          benefitsFromParallel = (audioDuration > chunkSeconds * 1.5)
      in exceedsHardLimits \<or> benefitsFromParallel)"

text \<open>
  The \<^verbatim>\<open>catch\<close> block: the audio file and the tracked chunk files are cleaned up, then
  the error is answered. The success path cleans up the same way before it answers.
\<close>

definition failed ::
  "error \<Rightarrow> (path \<Rightarrow> bool) \<Rightarrow> path list \<Rightarrow> path set \<Rightarrow> ((error + response) \<times> path set) option" where
  "failed e unlink_ok chunkFiles files =
     Some (Inl e, cleanupFiles unlink_ok (AudioFile # chunkFiles) files)"

definition succeeded ::
  "config \<Rightarrow> segment list \<Rightarrow> real \<Rightarrow> bool \<Rightarrow> real \<Rightarrow> real \<Rightarrow> (path \<Rightarrow> bool) \<Rightarrow> path list \<Rightarrow> path set
   \<Rightarrow> ((error + response) \<times> path set) option" where
  "succeeded cfg allSegments totalDuration chunking audioDuration chunkSeconds
       unlink_ok chunkFiles files =
     Some (Inr \<lparr>transcript = processTranscription (Some allSegments) cfg,
                raw_segments = allSegments,
                raw_duration = totalDuration,
                chunked = chunking,
                chunksUsed = (if chunking then \<lceil>audioDuration / chunkSeconds\<rceil> else 1)\<rparr>,
           cleanupFiles unlink_ok (AudioFile # chunkFiles) files)"

text \<open>
  The handler after the validation of the request, from the call of \<^verbatim>\<open>extractAudio\<close>
  on. The result is the answer together with the files left on disk; \<open>None\<close> is a run
  in which the splitter never returns. The loop that logs the size of each chunk is left
  out. When several transcription calls reject, the one error that is answered is
  \<open>TranscribeError\<close>.
\<close>

definition transcribe_route ::
  "env \<Rightarrow> real option \<Rightarrow> path set \<Rightarrow> ((error + response) \<times> path set) option" where
  "transcribe_route e chunkMinutes files =
     (case env_extract e of
        CutFailed leftover \<Rightarrow>
          failed ExtractError (env_unlink e) []
            (safeDelete (env_unlink e) AudioFile
               (if leftover then insert AudioFile files else files))
      | CutDone \<Rightarrow>
          let files1 = insert AudioFile files in
          (case env_probe e of
             None \<Rightarrow> failed ProbeError (env_unlink e) [] files1
           | Some audioDuration \<Rightarrow>
          (case env_size e of
             None \<Rightarrow> failed StatError (env_unlink e) [] files1
           | Some audioFileSize \<Rightarrow>
          let chunkSeconds = chunkDurationSeconds chunkMinutes;
              chunking = needsChunking audioDuration audioFileSize chunkSeconds in
          (case env_config e of
             None \<Rightarrow> failed ConfigError (env_unlink e) [] files1
           | Some cfg \<Rightarrow>
          if chunking then
            (case splitAudioIntoChunks (env_probe e) (env_cut e) (env_unlink e) chunkSeconds
                    CHUNK_OVERLAP_SECONDS files1 of
               None \<Rightarrow> None
             | Some (Inl err, files2) \<Rightarrow> failed err (env_unlink e) [] files2
             | Some (Inr chunks, files2) \<Rightarrow>
                 let chunkFiles = map path (filter (\<lambda>c. \<not> isOriginal c) chunks) in
                 (case dispatch (env_transcribe e) 0 chunks of
                    None \<Rightarrow> failed TranscribeError (env_unlink e) chunkFiles files2
                  | Some transcriptionResults \<Rightarrow>
                      let merged = merge_results (sort_by_index transcriptionResults)
                      in succeeded cfg (fst merged) (snd merged) chunking audioDuration
                           chunkSeconds (env_unlink e) chunkFiles files2))
          else
            (case env_transcribe e AudioFile of
               None \<Rightarrow> failed TranscribeError (env_unlink e) [] files1
             | Some transcription \<Rightarrow>
                 let allSegments = segments_or_empty transcription;
                     totalDuration =
                       (case result_duration transcription of
                          None \<Rightarrow> audioDuration
                        | Some d \<Rightarrow> if d = 0 then audioDuration else d)
                 in succeeded cfg allSegments totalDuration chunking audioDuration
                      chunkSeconds (env_unlink e) [] files1)))))"

text \<open>
  Sample runs: thirty minutes of audio of 20 MB, four-minute chunks, a backend that
  answers every file with no segments; in the second run the cut of chunk 1 fails.
\<close>

definition thirty_minutes :: env where
  "thirty_minutes =
     \<lparr>env_extract = CutDone, env_probe = Some 1800, env_size = Some 20971520,
      env_config = Some \<lparr>unknown_speaker_labels = None\<rparr>,
      env_cut = (\<lambda>i. CutDone),
      env_transcribe = (\<lambda>p. Some \<lparr>result_segments = Some [], result_duration = Some 240\<rparr>),
      env_unlink = (\<lambda>p. True)\<rparr>"

definition second_cut_fails :: env where
  "second_cut_fails = thirty_minutes\<lparr>env_cut := (\<lambda>i. if i = 1 then CutFailed True else CutDone)\<rparr>"

text \<open>
  A run over a seam: 400 s of audio are cut into the windows 0 s to 240 s and 210 s to
  400 s. The backend reports for chunk 0 a segment from 210.5 s to 210.9 s, and for
  chunk 1 a first segment that begins with the chunk, at 210 s of the source.
\<close>

definition seam_chunks :: "chunk list" where
  "seam_chunks =
     [\<lparr>path = ChunkFile 0, startTime = 0, endTime = 240, isOriginal = False\<rparr>,
      \<lparr>path = ChunkFile 1, startTime = 210, endTime = 400, isOriginal = False\<rparr>]"

definition seam_chunk0_result :: transcription where
  "seam_chunk0_result =
     \<lparr>result_segments =
        Some [\<lparr>start = 0, endt = 5, seg_text = ''first'', speaker = Some ''A''\<rparr>,
              \<lparr>start = 210.5, endt = 210.9, seg_text = ''before the seam'', speaker = Some ''A''\<rparr>],
      result_duration = Some 240\<rparr>"

definition seam_chunk1_result :: transcription where
  "seam_chunk1_result =
     \<lparr>result_segments =
        Some [\<lparr>start = 0, endt = 4, seg_text = ''after the seam'', speaker = Some ''B''\<rparr>],
      result_duration = Some 190\<rparr>"

definition seam_backend :: "path \<Rightarrow> transcription option" where
  "seam_backend p =
     (if p = ChunkFile 0 then Some seam_chunk0_result
      else if p = ChunkFile 1 then Some seam_chunk1_result
      else None)"

definition seam_results :: "tagged list" where
  "seam_results =
     [\<lparr>t_index = 0, t_chunk = seam_chunks ! 0, t_result = seam_chunk0_result\<rparr>,
      \<lparr>t_index = 1, t_chunk = seam_chunks ! 1, t_result = seam_chunk1_result\<rparr>]"

definition seam_run :: env where
  "seam_run =
     \<lparr>env_extract = CutDone, env_probe = Some 400, env_size = Some 6400000,
      env_config = Some \<lparr>unknown_speaker_labels = None\<rparr>,
      env_cut = (\<lambda>i. CutDone),
      env_transcribe = seam_backend,
      env_unlink = (\<lambda>p. True)\<rparr>"

text \<open>
  Order up to the tolerance of the merge, and the well-formedness of a backend answer
  (segments in ascending order of start, none ending before it starts).
\<close>

definition tolerant :: "segment \<Rightarrow> segment \<Rightarrow> bool" where
  "tolerant a b \<longleftrightarrow> start a \<le> start b + 2"

definition well_formed :: "transcription \<Rightarrow> bool" where
  "well_formed r \<longleftrightarrow>
     sorted (map start (segments_or_empty r)) \<and>
     (\<forall>s \<in> set (segments_or_empty r). start s \<le> endt s)"

text \<open>Sample inputs of the normalizer.\<close>

definition seg_of :: "string \<Rightarrow> segment" where
  "seg_of s = \<lparr>start = 0, endt = 1, seg_text = ''hello'', speaker = Some s\<rparr>"

definition two_labels :: config where
  "two_labels = \<lparr>unknown_speaker_labels = Some [''Host'', ''Guest'']\<rparr>"

section \<open>Window predicates\<close>

text \<open>
  Each window starts the overlap \<open>ov\<close> before the end of the one before it
  (\<open>consecutive\<close>), and ends the chunk duration \<open>C\<close> after its start or at the end
  \<open>D\<close> of the source, whichever is first (\<open>windowed\<close>).
\<close>

definition consecutive :: "real \<Rightarrow> chunk list \<Rightarrow> bool" where
  "consecutive ov chunks \<longleftrightarrow>
     (\<forall>i. Suc i < length chunks \<longrightarrow> startTime (chunks ! Suc i) = endTime (chunks ! i) - ov)"

definition windowed :: "real \<Rightarrow> real \<Rightarrow> chunk list \<Rightarrow> bool" where
  "windowed D C chunks \<longleftrightarrow>
     (\<forall>i < length chunks. endTime (chunks ! i) = min (startTime (chunks ! i) + C) D)"

section \<open>Properties of the merger\<close>

text \<open>
  C1. Merging into an empty accumulator returns the new segments unchanged. Otherwise the
  result is the accumulated segments without those whose end is greater than
  \<open>chunkStartTime + 1\<close>, followed by the new segments without those whose start is less
  than \<open>chunkStartTime - 1\<close>, in that order.
\<close>

theorem mergeChunkSegments_exact:
  "mergeChunkSegments accumulated newSegments chunkStartTime overlapSeconds =
     (if accumulated = [] then newSegments
      else filter (\<lambda>s. \<not> endt s > chunkStartTime + 1) accumulated
         @ filter (\<lambda>s. \<not> start s < chunkStartTime - 1) newSegments)"
  by (simp add: mergeChunkSegments_def not_less)

text \<open>
  C2, as stated, fails: with \<open>chunkStartTime = 240\<close> the accumulated segment ending at
  241 satisfies \<open>end \<le> 240 + 1\<close> and the new segment starting at 239 satisfies
  \<open>start \<ge> 240 - 1\<close>, so both are kept.
\<close>

theorem seam_segments_not_dropped:
  "\<not> (seam_accumulated \<notin> set (mergeChunkSegments [seam_accumulated] [seam_new] 240 30)
      \<and> seam_new \<notin> set (mergeChunkSegments [seam_accumulated] [seam_new] 240 30))"
  by (simp add: mergeChunkSegments_def seam_accumulated_def seam_new_def)

text \<open>
  C2, amended. With \<open>chunkStartTime = 240\<close>, an accumulated segment that ends at 241 and
  a new segment that starts at 239 are both kept by the merge: the tolerance of one
  second is inclusive on both sides.
\<close>

theorem seam_segments_kept:
  assumes "a \<in> set accumulated" and "endt a = 241"
    and "n \<in> set newSegments" and "start n = 239"
  shows "a \<in> set (mergeChunkSegments accumulated newSegments 240 overlapSeconds)
       \<and> n \<in> set (mergeChunkSegments accumulated newSegments 240 overlapSeconds)"
  using assms by (auto simp: mergeChunkSegments_def)

theorem seam_segments_kept_witness:
  "seam_accumulated \<in> set (mergeChunkSegments [seam_accumulated] [seam_new] 240 30)
   \<and> seam_new \<in> set (mergeChunkSegments [seam_accumulated] [seam_new] 240 30)"
  using seam_segments_kept [of seam_accumulated "[seam_accumulated]" seam_new "[seam_new]" 30]
  by (simp add: seam_accumulated_def seam_new_def)

section \<open>Properties of the splitter\<close>

lemma consecutive_snoc:
  "consecutive ov (cs @ [c]) \<longleftrightarrow>
     consecutive ov cs \<and> (cs \<noteq> [] \<longrightarrow> startTime c = endTime (last cs) - ov)"
proof (cases "cs = []")
  case True
  then show ?thesis by (simp add: consecutive_def)
next
  case False
  then have len: "0 < length cs" by simp
  show ?thesis
  proof
    assume a: "consecutive ov (cs @ [c])"
    have "consecutive ov cs"
      unfolding consecutive_def
    proof (intro allI impI)
      fix i assume "Suc i < length cs"
      with a[unfolded consecutive_def, rule_format, of i] show
        "startTime (cs ! Suc i) = endTime (cs ! i) - ov"
        by (simp add: nth_append)
    qed
    moreover have "startTime c = endTime (last cs) - ov"
      using a[unfolded consecutive_def, rule_format, of "length cs - 1"] len False
      by (simp add: nth_append last_conv_nth)
    ultimately show "consecutive ov cs \<and> (cs \<noteq> [] \<longrightarrow> startTime c = endTime (last cs) - ov)"
      by simp
  next
    assume a: "consecutive ov cs \<and> (cs \<noteq> [] \<longrightarrow> startTime c = endTime (last cs) - ov)"
    show "consecutive ov (cs @ [c])"
      unfolding consecutive_def
    proof (intro allI impI)
      fix i assume i: "Suc i < length (cs @ [c])"
      show "startTime ((cs @ [c]) ! Suc i) = endTime ((cs @ [c]) ! i) - ov"
      proof (cases "Suc i < length cs")
        case True
        with a show ?thesis by (simp add: consecutive_def nth_append)
      next
        case False
        with i have "i = length cs - 1" "Suc i = length cs" by simp_all
        with a \<open>cs \<noteq> []\<close> show ?thesis
          by (simp add: nth_append last_conv_nth)
      qed
    qed
  qed
qed

lemma windowed_snoc:
  "windowed D C (cs @ [c]) \<longleftrightarrow> windowed D C cs \<and> endTime c = min (startTime c + C) D"
  unfolding windowed_def
  by (auto simp: nth_append less_Suc_eq)

lemma split_loop_windows:
  assumes "split_loop ffmpeg_cut unlink_ok D C ov startT k chunks files = Some y"
  shows "\<forall>out fs. y = (Inr out, fs) \<longrightarrow> consecutive ov chunks \<longrightarrow> windowed D C chunks \<longrightarrow>
           (chunks \<noteq> [] \<longrightarrow> startT = endTime (last chunks) - ov) \<longrightarrow>
           consecutive ov out \<and> windowed D C out"
  using assms
proof (rule split_loop.raw_induct
    [where P = "\<lambda>ffmpeg_cut unlink_ok D C ov startT k chunks files y.
       \<forall>out fs. y = (Inr out, fs) \<longrightarrow> consecutive ov chunks \<longrightarrow> windowed D C chunks \<longrightarrow>
           (chunks \<noteq> [] \<longrightarrow> startT = endTime (last chunks) - ov) \<longrightarrow>
           consecutive ov out \<and> windowed D C out", rotated -1], goal_cases)
  case (1 loop ffmpeg_cut unlink_ok D C ov startT k chunks files y)
  show ?case
  proof (intro allI impI)
    fix out fs
    assume y: "y = (Inr out, fs)" and c: "consecutive ov chunks" and w: "windowed D C chunks"
      and l: "chunks \<noteq> [] \<longrightarrow> startT = endTime (last chunks) - ov"
    let ?c = "\<lparr>path = ChunkFile k, startTime = startT,
                endTime = min (startT + C) D, isOriginal = False\<rparr>"
    have c': "consecutive ov (chunks @ [?c])" using c l by (simp add: consecutive_snoc)
    have w': "windowed D C (chunks @ [?c])" using w by (simp add: windowed_snoc)
    from 1(2) y c w c' w' 1(1)[of ffmpeg_cut unlink_ok D C ov "min (startT + C) D - ov" "k + 1" "chunks @ [?c]"
        "insert (ChunkFile k) files" "(Inr out, fs)"]
    show "consecutive ov out \<and> windowed D C out"
      by (auto simp: Let_def split: if_splits cut_outcome.splits)
  qed
qed

lemma split_loop_returns_aux:
  assumes "ov < C"
  shows "D - startT \<le> real n * (C - ov) \<Longrightarrow>
         \<exists>r. split_loop ffmpeg_cut unlink_ok D C ov startT k chunks files = Some r"
proof (induction n arbitrary: startT k chunks files)
  case 0
  then have "\<not> startT < D" by simp
  then show ?case by (subst split_loop.simps) simp
next
  case (Suc n)
  show ?case
  proof (cases "startT < D")
    case False
    then show ?thesis by (subst split_loop.simps) simp
  next
    case True
    let ?e = "min (startT + C) D"
    let ?c = "\<lparr>path = ChunkFile k, startTime = startT, endTime = ?e, isOriginal = False\<rparr>"
    show ?thesis
    proof (cases "ffmpeg_cut k")
      case (CutFailed b)
      with True show ?thesis by (subst split_loop.simps) (simp add: Let_def)
    next
      case CutDone
      show ?thesis
      proof (cases "D - (?e - ov) < ov * 2")
        case True
        with \<open>startT < D\<close> CutDone show ?thesis
          by (subst split_loop.simps) (simp add: Let_def)
      next
        case False
        have "D - (?e - ov) \<le> real n * (C - ov)"
        proof (cases "startT + C \<le> D")
          case True
          then have "?e = startT + C" by simp
          with Suc.prems show ?thesis by (simp add: algebra_simps)
        next
          case False
          then have e: "?e = D" by simp
          with \<open>\<not> D - (?e - ov) < ov * 2\<close> have "ov \<le> 0" by simp
          moreover have "0 \<le> real n * (C - ov)" using assms by simp
          ultimately show ?thesis using e by simp
        qed
        from Suc.IH[OF this, of "k + 1" "chunks @ [?c]" "insert (ChunkFile k) files"]
        obtain r where "split_loop ffmpeg_cut unlink_ok D C ov (?e - ov) (k + 1)
            (chunks @ [?c]) (insert (ChunkFile k) files) = Some r" by blast
        with \<open>startT < D\<close> CutDone False show ?thesis
          by (subst split_loop.simps) (simp add: Let_def)
      qed
    qed
  qed
qed

lemma split_loop_returns:
  assumes "ov < C"
  shows "\<exists>r. split_loop ffmpeg_cut unlink_ok D C ov startT k chunks files = Some r"
proof -
  obtain n :: nat where "(D - startT) / (C - ov) \<le> real n"
    using real_arch_simple by blast
  with assms have "D - startT \<le> real n * (C - ov)"
    by (simp add: pos_divide_le_eq)
  then show ?thesis by (rule split_loop_returns_aux[OF assms])
qed

lemma split_loop_no_cut_error:
  assumes "split_loop ffmpeg_cut unlink_ok D C ov startT k chunks files = Some y"
  shows "(\<forall>i. ffmpeg_cut i = CutDone) \<longrightarrow> (\<exists>out fs. y = (Inr out, fs))"
  using assms
proof (rule split_loop.raw_induct
    [where P = "\<lambda>ffmpeg_cut unlink_ok D C ov startT k chunks files y.
       (\<forall>i. ffmpeg_cut i = CutDone) \<longrightarrow> (\<exists>out fs. y = (Inr out, fs))", rotated -1], goal_cases)
  case (1 loop ffmpeg_cut unlink_ok D C ov startT k chunks files y)
  show ?case
  proof
    assume a: "\<forall>i. ffmpeg_cut i = CutDone"
    let ?e = "min (startT + C) D"
    let ?c = "\<lparr>path = ChunkFile k, startTime = startT, endTime = ?e, isOriginal = False\<rparr>"
    from a 1(2) 1(1)[of ffmpeg_cut unlink_ok D C ov "?e - ov" "k + 1" "chunks @ [?c]"
        "insert (ChunkFile k) files" y]
    show "\<exists>out fs. y = (Inr out, fs)"
      by (auto simp: Let_def split: if_splits)
  qed
qed

text \<open>
  C9. For a source longer than the chunk duration, every two consecutive descriptors that
  the splitter returns satisfy \<open>start (i+1) = end i - overlap\<close>, and every window \<open>i\<close>
  ends at \<open>min (start i + chunkDuration) duration\<close>. The splitter does return descriptors
  when the overlap is less than the chunk duration and no cut fails.
\<close>

theorem split_consecutive_windows:
  assumes "C < D"
  shows "(ov < C \<longrightarrow> (\<forall>i. ffmpeg_cut i = CutDone) \<longrightarrow>
            (\<exists>chunks fs. splitAudioIntoChunks (Some D) ffmpeg_cut unlink_ok C ov files
                           = Some (Inr chunks, fs)))
       \<and> (\<forall>chunks fs.
            splitAudioIntoChunks (Some D) ffmpeg_cut unlink_ok C ov files = Some (Inr chunks, fs)
            \<longrightarrow> (\<forall>i. Suc i < length chunks \<longrightarrow>
                       startTime (chunks ! Suc i) = endTime (chunks ! i) - ov)
              \<and> (\<forall>i < length chunks.
                       endTime (chunks ! i) = min (startTime (chunks ! i) + C) D))"
proof (intro conjI impI allI)
  assume "ov < C" and ok: "\<forall>i. ffmpeg_cut i = CutDone"
  then obtain r where r: "split_loop ffmpeg_cut unlink_ok D C ov 0 0 [] files = Some r"
    using split_loop_returns by blast
  with ok split_loop_no_cut_error[OF r] assms
  show "\<exists>chunks fs. splitAudioIntoChunks (Some D) ffmpeg_cut unlink_ok C ov files
                      = Some (Inr chunks, fs)"
    by (auto simp: splitAudioIntoChunks_def)
next
  fix chunks fs
  assume "splitAudioIntoChunks (Some D) ffmpeg_cut unlink_ok C ov files = Some (Inr chunks, fs)"
  with assms have "split_loop ffmpeg_cut unlink_ok D C ov 0 0 [] files = Some (Inr chunks, fs)"
    by (simp add: splitAudioIntoChunks_def)
  from split_loop_windows[OF this]
  have cw: "consecutive ov chunks \<and> windowed D C chunks"
    by (simp add: consecutive_def windowed_def)
  { fix i assume "Suc i < length chunks"
    with cw show "startTime (chunks ! Suc i) = endTime (chunks ! i) - ov"
      by (simp add: consecutive_def) }
  { fix i assume "i < length chunks"
    with cw show "endTime (chunks ! i) = min (startTime (chunks ! i) + C) D"
      by (simp add: windowed_def) }
qed

theorem split_consecutive_windows_witness:
  "(240::real) < 400
   \<and> splitAudioIntoChunks (Some 400) (\<lambda>_. CutDone) (\<lambda>_. True) 240 30 {}
       = Some (Inr [\<lparr>path = ChunkFile 0, startTime = 0, endTime = 240, isOriginal = False\<rparr>,
                    \<lparr>path = ChunkFile 1, startTime = 210, endTime = 400, isOriginal = False\<rparr>],
               {ChunkFile 0, ChunkFile 1})
   \<and> (210::real) = 240 - 30 \<and> (240::real) = min (0 + 240) 400 \<and> (400::real) = min (210 + 240) 400"
proof -
  have h: "(240::real) < 400" by simp
  have e: "splitAudioIntoChunks (Some 400) (\<lambda>_. CutDone) (\<lambda>_. True) 240 30 {}
       = Some (Inr [\<lparr>path = ChunkFile 0, startTime = 0, endTime = 240, isOriginal = False\<rparr>,
                    \<lparr>path = ChunkFile 1, startTime = 210, endTime = 400, isOriginal = False\<rparr>],
               {ChunkFile 0, ChunkFile 1})"
    by (simp add: splitAudioIntoChunks_def split_loop.simps Let_def insert_commute)
  from split_consecutive_windows[OF h, of 30 "\<lambda>_. CutDone" "\<lambda>_. True" "{}"] e
  show ?thesis by simp
qed

text \<open>
  C3, evaluated where it fails. A source of 1730 s with chunks of 240 s and an overlap of
  30 s is cut into eight windows; after the eighth (1470 s to 1710 s) the next start would
  be 1680 s, the remaining 50 s are fewer than twice the overlap, and the loop stops. The
  last descriptor ends at 1710 s: the final 20 s of the source are in no chunk.
\<close>

theorem split_tail_not_covered:
  "(case splitAudioIntoChunks (Some 1730) (\<lambda>_. CutDone) (\<lambda>_. True) 240 30 {} of
      Some (Inr chunks, fs) \<Rightarrow>
        length chunks = 8 \<and> startTime (last chunks) = 1470 \<and> endTime (last chunks) = 1710
        \<and> endTime (last chunks) \<noteq> 1730
    | _ \<Rightarrow> False)"
  by (simp add: splitAudioIntoChunks_def split_loop.simps Let_def)

section \<open>Properties of the speaker normalizer\<close>

lemma label_for_nonempty: "label_for labels i spk \<noteq> []"
  by (simp add: label_for_def)

lemma codes_of_append: "codes_of (xs @ ys) = codes_of xs @ codes_of ys"
  by (simp add: codes_of_def)

lemma in_codes_of: "c \<in> set (codes_of segs) \<longleftrightarrow> is_generic c \<and> c \<in> speaker_or_unknown ` set segs"
  by (auto simp: codes_of_def)

lemma codes_before_seen:
  assumes "c \<in> speaker_or_unknown ` set pre"
  shows "codes_before c (pre @ xs) = codes_before c pre"
proof -
  from assms obtain seg where "seg \<in> set pre" "\<not> speaker_or_unknown seg \<noteq> c" by auto
  then have "takeWhile (\<lambda>seg. speaker_or_unknown seg \<noteq> c) (pre @ xs)
             = takeWhile (\<lambda>seg. speaker_or_unknown seg \<noteq> c) pre"
    by (rule takeWhile_append1)
  then show ?thesis by (simp add: codes_before_def)
qed

lemma codes_before_unseen:
  assumes "c \<notin> speaker_or_unknown ` set pre" and "speaker_or_unknown x = c"
  shows "codes_before c (pre @ x # rest) = remdups (codes_of pre)"
proof -
  have "takeWhile (\<lambda>seg. speaker_or_unknown seg \<noteq> c) (pre @ x # rest)
        = pre @ takeWhile (\<lambda>seg. speaker_or_unknown seg \<noteq> c) (x # rest)"
    using assms(1) by (intro takeWhile_append2) auto
  with assms(2) show ?thesis by (simp add: codes_before_def)
qed

lemma st_ok_init: "st_ok labels [] (Map.empty, 0)"
  by (simp add: st_ok_def codes_of_def)

lemma resolve_step:
  assumes ok: "st_ok labels pre st" and spk: "speaker_or_unknown x = spk"
    and r: "(if is_generic spk then resolve_generic labels st spk else (spk, st)) = (name, st')"
  shows "st_ok labels (pre @ [x]) st' \<and> name = expected_name labels (pre @ x # rest) (length pre)"
proof (cases "is_generic spk")
  case False
  with r have [simp]: "name = spk" "st' = st" by simp_all
  have c: "codes_of (pre @ [x]) = codes_of pre" using False spk by (simp add: codes_of_def)
  have "\<And>c. c \<in> set (codes_of pre) \<Longrightarrow> codes_before c (pre @ [x]) = codes_before c pre"
    by (simp add: in_codes_of codes_before_seen)
  with ok c have "st_ok labels (pre @ [x]) st" by (simp add: st_ok_def)
  moreover have "expected_name labels (pre @ x # rest) (length pre) = spk"
    using False spk by (simp add: expected_name_def)
  ultimately show ?thesis by simp
next
  case True
  obtain m idx where st: "st = (m, idx)" by (cases st)
  from ok st have idx: "idx = length (remdups (codes_of pre))"
    and m: "\<And>c. m c = (if c \<in> set (codes_of pre)
                       then Some (label_for labels (length (codes_before c pre)) c) else None)"
    by (simp_all add: st_ok_def)
  have cx: "codes_of (pre @ [x]) = codes_of pre @ [spk]"
    using True spk by (simp add: codes_of_def)
  show ?thesis
  proof (cases "spk \<in> set (codes_of pre)")
    case seen: True
    then have mem: "spk \<in> speaker_or_unknown ` set pre" by (simp add: in_codes_of)
    from seen m have ms: "m spk = Some (label_for labels (length (codes_before spk pre)) spk)"
      by simp
    with r True st have [simp]: "name = label_for labels (length (codes_before spk pre)) spk"
      "st' = (m, idx)"
      by (simp_all add: resolve_generic_def Let_def label_for_nonempty)
    have len: "length (remdups (codes_of (pre @ [x]))) = idx"
      using seen idx cx by (simp add: length_remdups_card_conv insert_absorb)
    have "\<And>c. c \<in> set (codes_of pre) \<Longrightarrow> codes_before c (pre @ [x]) = codes_before c pre"
      by (simp add: in_codes_of codes_before_seen)
    with m len cx seen have "st_ok labels (pre @ [x]) (m, idx)"
      by (simp add: st_ok_def)
    moreover have "expected_name labels (pre @ x # rest) (length pre)
        = label_for labels (length (codes_before spk pre)) spk"
      using True spk mem by (simp add: expected_name_def codes_before_seen)
    ultimately show ?thesis by simp
  next
    case unseen: False
    with True have nmem: "spk \<notin> speaker_or_unknown ` set pre" by (simp add: in_codes_of)
    from unseen m have "m spk = None" by simp
    with r True st have [simp]: "name = label_for labels idx spk"
      "st' = (m(spk \<mapsto> label_for labels idx spk), idx + 1)"
      by (auto simp: resolve_generic_def Let_def)
    have len: "length (remdups (codes_of (pre @ [x]))) = idx + 1"
      using unseen idx cx by (simp add: length_remdups_card_conv)
    have b1: "\<And>c. c \<in> set (codes_of pre) \<Longrightarrow> codes_before c (pre @ [x]) = codes_before c pre"
      by (simp add: in_codes_of codes_before_seen)
    have b2: "codes_before spk (pre @ [x]) = remdups (codes_of pre)"
      using codes_before_unseen[OF nmem spk, of "[]"] by simp
    have "st_ok labels (pre @ [x]) (m(spk \<mapsto> label_for labels idx spk), idx + 1)"
      unfolding st_ok_def using len m b1 b2 idx cx by auto
    moreover have "expected_name labels (pre @ x # rest) (length pre) = label_for labels idx spk"
      using True spk idx codes_before_unseen[OF nmem spk, of rest]
      by (simp add: expected_name_def)
    ultimately show ?thesis by simp
  qed
qed

lemma map_segments_length: "length (map_segments labels st i segs) = length segs"
  by (induction segs arbitrary: st i) (auto simp: Let_def split: prod.splits)

lemma map_segments_nth:
  assumes "st_ok labels pre st" and "j < length segs"
  shows "p_speaker (map_segments labels st i segs ! j) = expected_name labels (pre @ segs) (length pre + j)"
  using assms
proof (induction segs arbitrary: pre st i j)
  case Nil
  then show ?case by simp
next
  case (Cons x rest)
  obtain name st' where r: "(if is_generic (speaker_or_unknown x)
      then resolve_generic labels st (speaker_or_unknown x) else (speaker_or_unknown x, st)) = (name, st')"
    by (cases "(if is_generic (speaker_or_unknown x)
      then resolve_generic labels st (speaker_or_unknown x) else (speaker_or_unknown x, st))")
  from resolve_step[OF Cons.prems(1) refl r, of rest]
  have ok': "st_ok labels (pre @ [x]) st'"
    and nm: "name = expected_name labels (pre @ x # rest) (length pre)" by simp_all
  show ?case
  proof (cases j)
    case 0
    with r nm show ?thesis by (simp add: Let_def)
  next
    case (Suc j')
    with Cons.prems have "j' < length rest" by simp
    from Cons.IH[OF ok' this, of "i + 1"] r Suc show ?thesis by (simp add: Let_def)
  qed
qed

lemma processTranscription_speaker:
  assumes "j < length segs"
  shows "p_speaker (processTranscription (Some segs) cfg ! j)
         = expected_name (unknownLabels cfg) segs j"
  using map_segments_nth[OF st_ok_init assms, of "unknownLabels cfg" 0]
  by (simp add: processTranscription_def)

lemma codes_before_map:
  "codes_before c segs
   = remdups (filter is_generic (takeWhile (\<lambda>s. s \<noteq> c) (map speaker_or_unknown segs)))"
  by (simp add: codes_before_def codes_of_def takeWhile_map comp_def)

lemma expected_name_cong:
  assumes "map speaker_or_unknown segs' = map speaker_or_unknown segs" and "j < length segs"
  shows "expected_name labels segs' j = expected_name labels segs j"
proof -
  from assms have "speaker_or_unknown (segs' ! j) = speaker_or_unknown (segs ! j)"
    by (metis length_map nth_map)
  moreover have "\<And>c. codes_before c segs' = codes_before c segs"
    using assms(1) by (simp add: codes_before_map)
  ultimately show ?thesis by (simp add: expected_name_def Let_def)
qed

lemma rank_bounded_inj:
  "(\<forall>c \<in> set (codes_of segs). length (codes_before c segs) < length (remdups (codes_of segs)))
   \<and> inj_on (\<lambda>c. length (codes_before c segs)) (set (codes_of segs))"
proof (induction segs rule: rev_induct)
  case Nil
  then show ?case by (simp add: codes_of_def)
next
  case (snoc x pre)
  let ?spk = "speaker_or_unknown x"
  have old: "\<And>c. c \<in> set (codes_of pre) \<Longrightarrow> codes_before c (pre @ [x]) = codes_before c pre"
    by (simp add: in_codes_of codes_before_seen)
  show ?case
  proof (cases "is_generic ?spk \<and> ?spk \<notin> set (codes_of pre)")
    case False
    then have "set (codes_of (pre @ [x])) = set (codes_of pre)"
      by (auto simp: codes_of_def)
    moreover from this have "length (remdups (codes_of (pre @ [x]))) = length (remdups (codes_of pre))"
      by (simp add: length_remdups_card_conv)
    ultimately show ?thesis using snoc.IH old by (simp add: inj_on_def)
  next
    case True
    then have nmem: "?spk \<notin> speaker_or_unknown ` set pre" by (simp add: in_codes_of)
    have s: "set (codes_of (pre @ [x])) = insert ?spk (set (codes_of pre))"
      using True by (auto simp: codes_of_def)
    have l: "length (remdups (codes_of (pre @ [x]))) = Suc (length (remdups (codes_of pre)))"
      using True s by (simp add: length_remdups_card_conv)
    have new: "codes_before ?spk (pre @ [x]) = remdups (codes_of pre)"
      using codes_before_unseen[OF nmem refl, of "[]"] by simp
    from snoc.IH have b: "\<And>c. c \<in> set (codes_of pre) \<Longrightarrow>
        length (codes_before c pre) < length (remdups (codes_of pre))"
      and inj: "inj_on (\<lambda>c. length (codes_before c pre)) (set (codes_of pre))" by simp_all
    have "\<forall>c \<in> set (codes_of (pre @ [x])).
        length (codes_before c (pre @ [x])) < length (remdups (codes_of (pre @ [x])))"
      using s l new old b by (auto simp: less_Suc_eq)
    moreover have "inj_on (\<lambda>c. length (codes_before c (pre @ [x]))) (set (codes_of (pre @ [x])))"
      unfolding s inj_on_def
    proof (intro ballI impI)
      fix a b'
      assume a: "a \<in> insert ?spk (set (codes_of pre))" and b': "b' \<in> insert ?spk (set (codes_of pre))"
        and e: "length (codes_before a (pre @ [x])) = length (codes_before b' (pre @ [x]))"
      show "a = b'"
      proof (cases "a = ?spk"; cases "b' = ?spk")
        assume "a = ?spk" "b' = ?spk" then show ?thesis by simp
      next
        assume "a = ?spk" "b' \<noteq> ?spk"
        with b' e new old[of b'] b[of b'] show ?thesis by simp
      next
        assume "a \<noteq> ?spk" "b' = ?spk"
        with a e new old[of a] b[of a] show ?thesis by simp
      next
        assume "a \<noteq> ?spk" "b' \<noteq> ?spk"
        with a b' e old[of a] old[of b'] inj show ?thesis by (simp add: inj_on_def)
      qed
    qed
    ultimately show ?thesis by simp
  qed
qed

lemma rank_distinct:
  assumes "i < length segs" "j < length segs"
    and "is_generic (speaker_or_unknown (segs ! i))" "is_generic (speaker_or_unknown (segs ! j))"
    and "speaker_or_unknown (segs ! i) \<noteq> speaker_or_unknown (segs ! j)"
  shows "length (codes_before (speaker_or_unknown (segs ! i)) segs)
       \<noteq> length (codes_before (speaker_or_unknown (segs ! j)) segs)"
proof -
  have "speaker_or_unknown (segs ! i) \<in> set (codes_of segs)"
    "speaker_or_unknown (segs ! j) \<in> set (codes_of segs)"
    using assms by (simp_all add: in_codes_of)
  with rank_bounded_inj[of segs] assms(5) show ?thesis
    by (auto simp: inj_on_def)
qed

text \<open>
  C8, as stated, fails: a speaker that is the empty string is not a single upper-case
  letter, yet it is not passed through; \<^verbatim>\<open>segment.speaker || 'Unknown'\<close> replaces it.
\<close>

theorem empty_speaker_replaced:
  "\<not> is_generic '''' \<and>
   p_speaker (processTranscription (Some [seg_of '''']) \<lparr>unknown_speaker_labels = None\<rparr> ! 0)
     = ''Unknown'' \<and>
   p_speaker (processTranscription (Some [seg_of '''']) \<lparr>unknown_speaker_labels = None\<rparr> ! 0)
     \<noteq> ''''"
  by (simp add: processTranscription_def unknownLabels_def speaker_or_unknown_def is_generic_def
      seg_of_def Let_def)

text \<open>
  C8, amended. With \<open>s\<close> the speaker of a segment after \<^verbatim>\<open>|| 'Unknown'\<close> (a missing or
  empty speaker reads \<open>''Unknown''\<close>) and \<open>k\<close> the number of distinct generic codes met
  before the first segment whose speaker is \<open>s\<close>:
  \<^item> the output has one entry per segment;
  \<^item> a speaker that is not a single upper-case letter is passed through;
  \<^item> a generic code gets the fallback label at position \<open>k\<close> of the configured list when
    there is one and it is not empty, on its first and on every later segment;
  \<^item> segments with the same speaker get the same name;
  \<^item> two different generic codes that both find a fallback label take different
    positions of the list, hence different names when the configured labels are pairwise
    distinct and not empty;
  \<^item> the names depend only on the sequence of speakers and on the labels.
\<close>

theorem normalizer_mapping:
  "length (processTranscription (Some segs) cfg) = length segs
   \<and> (\<forall>j < length segs.
        (\<not> is_generic (speaker_or_unknown (segs ! j)) \<longrightarrow>
           p_speaker (processTranscription (Some segs) cfg ! j) = speaker_or_unknown (segs ! j))
      \<and> (is_generic (speaker_or_unknown (segs ! j)) \<longrightarrow>
           length (codes_before (speaker_or_unknown (segs ! j)) segs) < length (unknownLabels cfg) \<longrightarrow>
           unknownLabels cfg ! length (codes_before (speaker_or_unknown (segs ! j)) segs) \<noteq> [] \<longrightarrow>
           p_speaker (processTranscription (Some segs) cfg ! j)
             = unknownLabels cfg ! length (codes_before (speaker_or_unknown (segs ! j)) segs)))
   \<and> (\<forall>i < length segs. \<forall>j < length segs.
        speaker_or_unknown (segs ! i) = speaker_or_unknown (segs ! j) \<longrightarrow>
        p_speaker (processTranscription (Some segs) cfg ! i)
          = p_speaker (processTranscription (Some segs) cfg ! j))
   \<and> (\<forall>i < length segs. \<forall>j < length segs.
        is_generic (speaker_or_unknown (segs ! i)) \<longrightarrow>
        is_generic (speaker_or_unknown (segs ! j)) \<longrightarrow>
        speaker_or_unknown (segs ! i) \<noteq> speaker_or_unknown (segs ! j) \<longrightarrow>
        length (codes_before (speaker_or_unknown (segs ! i)) segs) < length (unknownLabels cfg) \<longrightarrow>
        length (codes_before (speaker_or_unknown (segs ! j)) segs) < length (unknownLabels cfg) \<longrightarrow>
        length (codes_before (speaker_or_unknown (segs ! i)) segs)
          \<noteq> length (codes_before (speaker_or_unknown (segs ! j)) segs)
        \<and> (distinct (unknownLabels cfg) \<longrightarrow> [] \<notin> set (unknownLabels cfg) \<longrightarrow>
             p_speaker (processTranscription (Some segs) cfg ! i)
               \<noteq> p_speaker (processTranscription (Some segs) cfg ! j)))
   \<and> (\<forall>segs'. map speaker_or_unknown segs' = map speaker_or_unknown segs \<longrightarrow>
        map p_speaker (processTranscription (Some segs') cfg)
          = map p_speaker (processTranscription (Some segs) cfg))"
proof (intro conjI allI impI)
  show "length (processTranscription (Some segs) cfg) = length segs"
    by (simp add: processTranscription_def map_segments_length)
next
  fix j assume "j < length segs" "\<not> is_generic (speaker_or_unknown (segs ! j))"
  then show "p_speaker (processTranscription (Some segs) cfg ! j) = speaker_or_unknown (segs ! j)"
    by (simp add: processTranscription_speaker expected_name_def)
next
  fix j assume "j < length segs" "is_generic (speaker_or_unknown (segs ! j))"
    "length (codes_before (speaker_or_unknown (segs ! j)) segs) < length (unknownLabels cfg)"
    "unknownLabels cfg ! length (codes_before (speaker_or_unknown (segs ! j)) segs) \<noteq> []"
  then show "p_speaker (processTranscription (Some segs) cfg ! j)
             = unknownLabels cfg ! length (codes_before (speaker_or_unknown (segs ! j)) segs)"
    by (simp add: processTranscription_speaker expected_name_def label_for_def)
next
  fix i j assume "i < length segs" "j < length segs"
    "speaker_or_unknown (segs ! i) = speaker_or_unknown (segs ! j)"
  then show "p_speaker (processTranscription (Some segs) cfg ! i)
          = p_speaker (processTranscription (Some segs) cfg ! j)"
    by (simp add: processTranscription_speaker expected_name_def)
next
  fix i j assume "i < length segs" "j < length segs"
    "is_generic (speaker_or_unknown (segs ! i))" "is_generic (speaker_or_unknown (segs ! j))"
    "speaker_or_unknown (segs ! i) \<noteq> speaker_or_unknown (segs ! j)"
  then show "length (codes_before (speaker_or_unknown (segs ! i)) segs)
          \<noteq> length (codes_before (speaker_or_unknown (segs ! j)) segs)"
    by (rule rank_distinct)
next
  fix i j assume a: "i < length segs" "j < length segs"
    "is_generic (speaker_or_unknown (segs ! i))" "is_generic (speaker_or_unknown (segs ! j))"
    "speaker_or_unknown (segs ! i) \<noteq> speaker_or_unknown (segs ! j)"
    and b: "length (codes_before (speaker_or_unknown (segs ! i)) segs) < length (unknownLabels cfg)"
    "length (codes_before (speaker_or_unknown (segs ! j)) segs) < length (unknownLabels cfg)"
    and d: "distinct (unknownLabels cfg)" "[] \<notin> set (unknownLabels cfg)"
  from rank_distinct[OF a] b d
  have "unknownLabels cfg ! length (codes_before (speaker_or_unknown (segs ! i)) segs)
      \<noteq> unknownLabels cfg ! length (codes_before (speaker_or_unknown (segs ! j)) segs)"
    by (simp add: nth_eq_iff_index_eq)
  moreover from b d have
    "unknownLabels cfg ! length (codes_before (speaker_or_unknown (segs ! i)) segs) \<noteq> []"
    "unknownLabels cfg ! length (codes_before (speaker_or_unknown (segs ! j)) segs) \<noteq> []"
    by (metis nth_mem)+
  ultimately show "p_speaker (processTranscription (Some segs) cfg ! i)
               \<noteq> p_speaker (processTranscription (Some segs) cfg ! j)"
    using a b by (simp add: processTranscription_speaker expected_name_def label_for_def)
next
  fix segs' assume e: "map speaker_or_unknown segs' = map speaker_or_unknown segs"
  then have len: "length segs' = length segs" by (metis length_map)
  show "map p_speaker (processTranscription (Some segs') cfg)
          = map p_speaker (processTranscription (Some segs) cfg)"
  proof (rule nth_equalityI)
    show "length (map p_speaker (processTranscription (Some segs') cfg))
        = length (map p_speaker (processTranscription (Some segs) cfg))"
      using len by (simp add: processTranscription_def map_segments_length)
  next
    fix j assume "j < length (map p_speaker (processTranscription (Some segs') cfg))"
    then have j: "j < length segs'" by (simp add: processTranscription_def map_segments_length)
    with len have j': "j < length segs" by simp
    have l1: "j < length (processTranscription (Some segs') cfg)"
      and l2: "j < length (processTranscription (Some segs) cfg)"
      using j j' by (simp_all add: processTranscription_def map_segments_length)
    show "map p_speaker (processTranscription (Some segs') cfg) ! j
        = map p_speaker (processTranscription (Some segs) cfg) ! j"
      using l1 l2 j j' expected_name_cong[OF e j']
      by (simp add: processTranscription_speaker)
  qed
qed

theorem normalizer_mapping_witness:
  "map speaker_or_unknown [seg_of ''X'', seg_of ''Bob'', seg_of ''Y'', seg_of ''X'']
     = [''X'', ''Bob'', ''Y'', ''X'']
   \<and> is_generic ''X'' \<and> is_generic ''Y'' \<and> \<not> is_generic ''Bob''
   \<and> codes_before ''X'' [seg_of ''X'', seg_of ''Bob'', seg_of ''Y'', seg_of ''X''] = []
   \<and> codes_before ''Y'' [seg_of ''X'', seg_of ''Bob'', seg_of ''Y'', seg_of ''X''] = [''X'']
   \<and> unknownLabels two_labels = [''Host'', ''Guest'']
   \<and> map p_speaker
        (processTranscription (Some [seg_of ''X'', seg_of ''Bob'', seg_of ''Y'', seg_of ''X''])
           two_labels)
       = [''Host'', ''Bob'', ''Guest'', ''Host'']"
  using normalizer_mapping [of "[seg_of ''X'', seg_of ''Bob'', seg_of ''Y'', seg_of ''X'']" two_labels]
  by (simp add: processTranscription_def unknownLabels_def speaker_or_unknown_def is_generic_def
      resolve_generic_def label_for_def codes_before_def codes_of_def seg_of_def two_labels_def
      Let_def)

text \<open>
  C10. A generic code that is first met when at least as many distinct codes as there are
  fallback labels have been met before it is shown as \<open>''Speaker ''\<close> followed by the code.
\<close>

theorem exhausted_labels_fallback:
  assumes "j < length segs" and "speaker (segs ! j) = Some c" and "is_generic c"
    and "length (unknownLabels cfg) \<le> length (codes_before c segs)"
  shows "p_speaker (processTranscription (Some segs) cfg ! j) = ''Speaker '' @ c"
proof -
  from assms(2,3) have "speaker_or_unknown (segs ! j) = c"
    by (auto simp: speaker_or_unknown_def is_generic_def)
  with assms show ?thesis
    by (simp add: processTranscription_speaker expected_name_def label_for_def)
qed

theorem exhausted_labels_fallback_witness:
  "(2::nat) < length [seg_of ''A'', seg_of ''B'', seg_of ''X'', seg_of ''X'']
   \<and> speaker ([seg_of ''A'', seg_of ''B'', seg_of ''X'', seg_of ''X''] ! 2) = Some ''X''
   \<and> is_generic ''X''
   \<and> length (unknownLabels two_labels)
       \<le> length (codes_before ''X'' [seg_of ''A'', seg_of ''B'', seg_of ''X'', seg_of ''X''])
   \<and> p_speaker (processTranscription
        (Some [seg_of ''A'', seg_of ''B'', seg_of ''X'', seg_of ''X'']) two_labels ! 2)
       = ''Speaker X''"
proof -
  have h: "(2::nat) < length [seg_of ''A'', seg_of ''B'', seg_of ''X'', seg_of ''X'']"
    "speaker ([seg_of ''A'', seg_of ''B'', seg_of ''X'', seg_of ''X''] ! 2) = Some ''X''"
    "is_generic ''X''"
    "length (unknownLabels two_labels)
       \<le> length (codes_before ''X'' [seg_of ''A'', seg_of ''B'', seg_of ''X'', seg_of ''X''])"
    by (simp_all add: unknownLabels_def speaker_or_unknown_def is_generic_def codes_before_def
        codes_of_def seg_of_def two_labels_def)
  from exhausted_labels_fallback [OF h] h show ?thesis by simp
qed

section \<open>Properties of the route\<close>

lemmas route_defs = transcribe_route_def thirty_minutes_def second_cut_fails_def
  chunkDurationSeconds_def needsChunking_def DEFAULT_CHUNK_MINUTES_def MAX_CHUNK_DURATION_SECONDS_def
  MAX_DURATION_SECONDS_def MAX_FILE_SIZE_MB_def CHUNK_OVERLAP_SECONDS_def
  splitAudioIntoChunks_def split_loop.simps Let_def failed_def succeeded_def cleanupFiles_def safeDelete_def
  sort_by_index_def merge_results_def merge_step_def mergeChunkSegments_def adjustedSegments_def segments_or_empty_def
  processTranscription_def

text \<open>
  C6, evaluated where it fails. For thirty minutes of audio and four-minute chunks the
  splitter returns nine descriptors, all of which are dispatched, while the answer reports
  \<^verbatim>\<open>chunksUsed = Math.ceil(1800 / 240) = 8\<close>: the count is computed from the duration
  and the chunk duration alone, without the overlap.
\<close>

theorem chunksUsed_undercounts:
  "(case splitAudioIntoChunks (Some 1800) (\<lambda>i. CutDone) (\<lambda>p. True) 240 30 {AudioFile} of
      Some (Inr chunks, fs) \<Rightarrow> length chunks = 9
    | _ \<Rightarrow> False)
   \<and> (case transcribe_route thirty_minutes (Some 4) {} of
        Some (Inr resp, fs) \<Rightarrow> chunked resp \<and> chunksUsed resp = 8
      | _ \<Rightarrow> False)"
  by (simp add: route_defs)

text \<open>
  C7, evaluated where it fails. When the cut of chunk 1 fails in the splitter, the file
  of chunk 0 has been written and the splitter rejects before the route has recorded any
  chunk file; the \<^verbatim>\<open>catch\<close> block removes the audio file only, and the file of chunk 0
  stays on disk when the error is answered.
\<close>

theorem split_failure_leaves_chunk_file:
  "(case transcribe_route second_cut_fails (Some 4) {} of
      Some (Inl err, fs) \<Rightarrow> err = CutError 1 \<and> ChunkFile 0 \<in> fs \<and> AudioFile \<notin> fs
    | _ \<Rightarrow> False)"
  by (simp add: route_defs)

text \<open>
  The other failure after the extraction that involves chunk files is handled: when the
  splitter has returned and a transcription call rejects, the \<^verbatim>\<open>catch\<close> block removes
  the audio file and every chunk file, provided the unlinks succeed.
\<close>

lemma cleanupFiles_eq:
  "cleanupFiles unlink_ok filePaths files = files - {p \<in> set filePaths. unlink_ok p}"
  unfolding cleanupFiles_def
  by (induction filePaths arbitrary: files) auto

lemma split_loop_files:
  assumes "split_loop ffmpeg_cut unlink_ok D C ov startT k chunks files = Some y"
  shows "\<forall>out fs. y = (Inr out, fs) \<longrightarrow>
           (\<exists>more. out = chunks @ more \<and> fs = files \<union> path ` set more
                    \<and> (\<forall>c \<in> set more. \<not> isOriginal c))"
  using assms
proof (rule split_loop.raw_induct
    [where P = "\<lambda>ffmpeg_cut unlink_ok D C ov startT k chunks files y.
       \<forall>out fs. y = (Inr out, fs) \<longrightarrow>
           (\<exists>more. out = chunks @ more \<and> fs = files \<union> path ` set more
                    \<and> (\<forall>c \<in> set more. \<not> isOriginal c))", rotated -1], goal_cases)
  case (1 loop ffmpeg_cut unlink_ok D C ov startT k chunks files y)
  let ?c = "\<lparr>path = ChunkFile k, startTime = startT,
              endTime = min (startT + C) D, isOriginal = False\<rparr>"
  show ?case
  proof (intro allI impI)
    fix out fs assume y: "y = (Inr out, fs)"
    show "\<exists>more. out = chunks @ more \<and> fs = files \<union> path ` set more
                    \<and> (\<forall>c \<in> set more. \<not> isOriginal c)"
    proof (cases "startT < D")
      case False
      with 1(2) y have "out = chunks" "fs = files" by simp_all
      then show ?thesis by simp
    next
      case True
      show ?thesis
      proof (cases "ffmpeg_cut k")
        case (CutFailed b)
        with True 1(2) y show ?thesis by (simp add: Let_def)
      next
        case CutDone
        show ?thesis
        proof (cases "D - (min (startT + C) D - ov) < ov * 2")
          case True
          with \<open>startT < D\<close> CutDone 1(2) y
          have "out = chunks @ [?c]" "fs = insert (ChunkFile k) files" by (simp_all add: Let_def)
          then show ?thesis by (intro exI[of _ "[?c]"]) simp
        next
          case False
          with \<open>startT < D\<close> CutDone 1(2) y
          have "loop ffmpeg_cut unlink_ok D C ov (min (startT + C) D - ov) (k + 1)
                  (chunks @ [?c]) (insert (ChunkFile k) files) = Some (Inr out, fs)"
            by (simp add: Let_def)
          from 1(1)[OF this] obtain more where
            m: "out = (chunks @ [?c]) @ more" "fs = insert (ChunkFile k) files \<union> path ` set more"
              "\<forall>c \<in> set more. \<not> isOriginal c"
            by blast
          then show ?thesis by (intro exI[of _ "?c # more"]) auto
        qed
      qed
    qed
  qed
qed

lemma split_files:
  assumes "splitAudioIntoChunks (Some D) ffmpeg_cut unlink_ok C ov files = Some (Inr chunks, fs)"
  shows "fs = files \<union> set (map path (filter (\<lambda>c. \<not> isOriginal c) chunks))"
proof (cases "D \<le> C")
  case True
  with assms show ?thesis by (auto simp: splitAudioIntoChunks_def)
next
  case False
  with assms have "split_loop ffmpeg_cut unlink_ok D C ov 0 0 [] files = Some (Inr chunks, fs)"
    by (simp add: splitAudioIntoChunks_def)
  from split_loop_files[OF this] have "fs = files \<union> path ` set chunks"
    and "\<forall>c \<in> set chunks. \<not> isOriginal c" by simp_all
  then show ?thesis by simp
qed

lemma transcription_failure_cleans_up:
  assumes "env_extract e = CutDone" and "env_probe e = Some D" and "env_size e = Some sz"
    and "env_config e = Some cfg" and "needsChunking D sz (chunkDurationSeconds cm)"
    and split: "splitAudioIntoChunks (Some D) (env_cut e) (env_unlink e) (chunkDurationSeconds cm)
              CHUNK_OVERLAP_SECONDS (insert AudioFile files) = Some (Inr chunks, files2)"
    and "dispatch (env_transcribe e) 0 chunks = None"
    and unlink: "\<forall>p. env_unlink e p"
  shows "\<exists>fs. transcribe_route e cm files = Some (Inl TranscribeError, fs)
              \<and> AudioFile \<notin> fs
              \<and> (\<forall>c \<in> set chunks. \<not> isOriginal c \<longrightarrow> path c \<notin> fs)
              \<and> fs \<subseteq> files"
proof -
  let ?chunkFiles = "map path (filter (\<lambda>c. \<not> isOriginal c) chunks)"
  have r: "transcribe_route e cm files
        = Some (Inl TranscribeError, cleanupFiles (env_unlink e) (AudioFile # ?chunkFiles) files2)"
    using assms by (simp add: transcribe_route_def Let_def failed_def)
  have "cleanupFiles (env_unlink e) (AudioFile # ?chunkFiles) files2
        = files2 - ({AudioFile} \<union> set ?chunkFiles)"
    using unlink by (auto simp: cleanupFiles_eq)
  also have "\<dots> = (insert AudioFile files \<union> set ?chunkFiles) - ({AudioFile} \<union> set ?chunkFiles)"
    using split_files[OF split] by simp
  finally have c: "cleanupFiles (env_unlink e) (AudioFile # ?chunkFiles) files2
        = (insert AudioFile files \<union> set ?chunkFiles) - ({AudioFile} \<union> set ?chunkFiles)" .
  show ?thesis unfolding r c by auto
qed

lemma dispatch_indices:
  "dispatch transcribe i chunks = Some results \<Longrightarrow> map t_index results = [i ..< i + length chunks]"
proof (induction chunks arbitrary: i results)
  case Nil
  then show ?case by simp
next
  case (Cons c cs)
  from Cons.prems obtain r rest where r: "transcribe (path c) = Some r"
    and rest: "dispatch transcribe (i + 1) cs = Some rest"
    and res: "results = \<lparr>t_index = i, t_chunk = c, t_result = r\<rparr> # rest"
    by (auto split: option.splits)
  from Cons.IH[OF rest] have "map t_index rest = [i + 1 ..< i + 1 + length cs]" .
  moreover have "[i ..< i + length (c # cs)] = i # [i + 1 ..< i + 1 + length cs]"
  proof -
    have "i < i + length (c # cs)" by simp
    from upt_conv_Cons[OF this] show ?thesis by simp
  qed
  ultimately show ?case using res by simp
qed

lemma sort_key_unique:
  assumes "mset xs = mset ys" and "sorted (map f ys)" and "distinct (map f ys)"
  shows "sort_key f xs = ys"
proof -
  have "map f (sort_key f xs) = map f ys"
  proof (rule sorted_distinct_set_unique)
    show "sorted (map f (sort_key f xs))" by simp
    show "sorted (map f ys)" by fact
    show "distinct (map f ys)" by fact
    have m: "mset (map f (sort_key f xs)) = mset (map f ys)" using assms(1) by simp
    then show "distinct (map f (sort_key f xs))"
      using assms(3) by (metis distinct_count_atmost_1 mset_eq_setD)
    from m show "set (map f (sort_key f xs)) = set (map f ys)" by (rule mset_eq_setD)
  qed
  moreover have "inj_on f (set (sort_key f xs) \<union> set ys)"
    using assms(1,3) by (metis distinct_map mset_eq_setD set_sort sup.idem)
  ultimately show ?thesis by (rule map_inj_on)
qed

text \<open>
  C4. Whatever the order in which the tagged results of the chunks are collected, sorting
  them by index gives the results in the order of the chunks, and the merge of the sorted
  list is the merge of the results taken in the order of the chunks.
\<close>

theorem merge_order_invariant:
  assumes "dispatch transcribe 0 chunks = Some results"
    and "mset collected = mset results"
  shows "sort_by_index collected = results
       \<and> merge_results (sort_by_index collected) = merge_results results"
proof -
  from dispatch_indices[OF assms(1)] have "map t_index results = [0 ..< length chunks]" by simp
  then have "sorted (map t_index results)" "distinct (map t_index results)" by simp_all
  with assms(2) have "sort_key t_index collected = results" by (rule sort_key_unique)
  then show ?thesis by (simp add: sort_by_index_def)
qed

lemmas seam_defs = seam_chunks_def seam_chunk0_result_def seam_chunk1_result_def
  seam_backend_def seam_results_def seam_run_def

theorem merge_order_invariant_witness:
  "dispatch seam_backend 0 seam_chunks = Some seam_results
   \<and> mset (rev seam_results) = mset seam_results
   \<and> rev seam_results \<noteq> seam_results
   \<and> sort_by_index (rev seam_results) = seam_results
   \<and> merge_results (sort_by_index (rev seam_results)) = merge_results seam_results"
proof -
  have d: "dispatch seam_backend 0 seam_chunks = Some seam_results"
    by (simp add: seam_defs)
  have m: "mset (rev seam_results) = mset seam_results" by simp
  have n: "rev seam_results \<noteq> seam_results" by (simp add: seam_defs)
  from merge_order_invariant [OF d m] d m n show ?thesis by simp
qed

text \<open>
  C5, as stated, fails. In the run over the seam both answers list their segments in
  ascending order of start. The segment of chunk 0 from 210.5 s to 210.9 s ends before
  \<open>210 + 1\<close> and is kept; the segment of chunk 1 that starts at 210 s starts after
  \<open>210 - 1\<close> and is kept, behind it. The merged transcript has the starts 0, 210.5, 210.
\<close>

theorem merged_transcript_unsorted:
  "sorted (map start (segments_or_empty seam_chunk0_result))
   \<and> sorted (map start (segments_or_empty seam_chunk1_result))
   \<and> (case transcribe_route seam_run (Some 4) {} of
        Some (Inr resp, fs) \<Rightarrow>
          map start (raw_segments resp) = [0, 210.5, 210]
          \<and> \<not> sorted (map start (raw_segments resp))
      | _ \<Rightarrow> False)"
  by (simp add: route_defs seam_defs)

lemma adjusted_sorted:
  assumes "well_formed (t_result tr)"
  shows "sorted_wrt (\<lambda>a b. start a \<le> start b) (adjustedSegments tr)"
    and "\<forall>s \<in> set (adjustedSegments tr). start s \<le> endt s"
  using assms
  by (auto simp: well_formed_def adjustedSegments_def sorted_map sorted_wrt_map)

lemma merge_keeps_tolerant:
  assumes acc: "sorted_wrt tolerant acc" "\<forall>s \<in> set acc. start s \<le> endt s"
    and new: "sorted_wrt (\<lambda>a b. start a \<le> start b) new" "\<forall>s \<in> set new. start s \<le> endt s"
  shows "sorted_wrt tolerant (mergeChunkSegments acc new t ov)
       \<and> (\<forall>s \<in> set (mergeChunkSegments acc new t ov). start s \<le> endt s)"
proof -
  have n: "sorted_wrt tolerant new"
    using new(1) by (rule sorted_wrt_mono_rel[rotated]) (simp add: tolerant_def)
  show ?thesis
  proof (cases "acc = []")
    case True
    with n new(2) show ?thesis by (simp add: mergeChunkSegments_def)
  next
    case False
    have "sorted_wrt tolerant (filter (\<lambda>seg. endt seg \<le> t + 1) acc)"
      using acc(1) by (rule sorted_wrt_filter)
    moreover have "sorted_wrt tolerant (filter (\<lambda>seg. start seg \<ge> t - 1) new)"
      using n by (rule sorted_wrt_filter)
    moreover have "\<forall>a \<in> set (filter (\<lambda>seg. endt seg \<le> t + 1) acc).
        \<forall>b \<in> set (filter (\<lambda>seg. start seg \<ge> t - 1) new). tolerant a b"
      using acc(2) by (fastforce simp: tolerant_def)
    ultimately show ?thesis
      using False acc(2) new(2) by (auto simp: mergeChunkSegments_def sorted_wrt_append)
  qed
qed

lemma merge_loop_tolerant:
  assumes "sorted_wrt tolerant (fst acc)" "\<forall>s \<in> set (fst acc). start s \<le> endt s"
    and "\<forall>tr \<in> set results. well_formed (t_result tr)"
  shows "sorted_wrt tolerant (fst (foldl merge_step acc results))"
  using assms
proof (induction results arbitrary: acc)
  case Nil
  then show ?case by simp
next
  case (Cons tr rest)
  from Cons.prems(3) have wf: "well_formed (t_result tr)" by simp
  from merge_keeps_tolerant[OF Cons.prems(1,2) adjusted_sorted[OF wf],
      of "startTime (t_chunk tr)" CHUNK_OVERLAP_SECONDS]
  have "sorted_wrt tolerant (fst (merge_step acc tr))"
    "\<forall>s \<in> set (fst (merge_step acc tr)). start s \<le> endt s"
    by (simp_all add: merge_step_def)
  from Cons.IH[OF this] Cons.prems(3) show ?case by simp
qed

text \<open>
  C5, amended. When every backend answer lists its segments in ascending order of start
  and no segment ends before it starts, the merged transcript is in ascending order of
  start up to the tolerance of the merge: a segment starts at most 2 s later than any
  segment placed after it.
\<close>

theorem merged_nearly_sorted:
  assumes "\<forall>tr \<in> set results.
             sorted (map start (segments_or_empty (t_result tr))) \<and>
             (\<forall>s \<in> set (segments_or_empty (t_result tr)). start s \<le> endt s)"
  shows "sorted_wrt (\<lambda>a b. start a \<le> start b + 2) (fst (merge_results results))"
proof -
  from assms have "\<forall>tr \<in> set results. well_formed (t_result tr)"
    by (simp add: well_formed_def)
  from merge_loop_tolerant[OF _ _ this, of "([], 0)"]
  have "sorted_wrt tolerant (fst (merge_results results))"
    by (simp add: merge_results_def)
  then show ?thesis by (simp add: tolerant_def[abs_def])
qed

theorem merged_nearly_sorted_witness:
  "list_all (\<lambda>tr. sorted (map start (segments_or_empty (t_result tr))) \<and>
                  list_all (\<lambda>s. start s \<le> endt s) (segments_or_empty (t_result tr)))
            seam_results
   \<and> map start (fst (merge_results seam_results)) = [0, 210.5, 210]
   \<and> sorted_wrt (\<lambda>a b. start a \<le> start b + 2) (fst (merge_results seam_results))"
proof -
  have h: "\<forall>tr \<in> set seam_results.
      sorted (map start (segments_or_empty (t_result tr))) \<and>
      (\<forall>s \<in> set (segments_or_empty (t_result tr)). start s \<le> endt s)"
    by (simp add: seam_defs segments_or_empty_def)
  have e: "map start (fst (merge_results seam_results)) = [0, 210.5, 210]"
    by (simp add: seam_defs route_defs)
  from merged_nearly_sorted [OF h] h e show ?thesis by (simp add: list_all_iff)
qed

end
